theory Spec2Isabelle
  imports Main "HOL-Library.AList"
begin

section \<open>Python values and exceptions\<close>

text \<open>
  The package works on \<open>str\<close> and \<open>bytes\<close> objects. A \<open>str\<close> is the list of its code
  points, a \<open>bytes\<close> object the list of its byte values. \<open>PInt\<close> and \<open>PNone\<close> stand for
  the other objects a dynamically typed caller can pass.
\<close>

datatype element_type = Str | Bytes

datatype pyobj = PStr "nat list" | PBytes "nat list" | PInt int | PNone

datatype error =
    NotACharacter | NotAByte | InvalidIntervalDirection
  | NoIntervals | OverlappingIntervals | ConfigurationConflict
  | InvalidIndex | InvalidChar
  | InvalidEndpoints | InvalidRangeDirection
  | EmptyListOfIndices | InvalidBase
  | TypeError | ValueError | LookupError | IndexError | AssertionError | RuntimeError

text \<open>
  The exception classes caught by \<open>except (LookupError, ValueError)\<close>: the package's
  own subclasses of \<open>ValueError\<close> and \<open>LookupError\<close>, and \<open>IndexError\<close>.
\<close>

fun is_lookup_or_value_error :: "error \<Rightarrow> bool" where
  "is_lookup_or_value_error TypeError = False"
| "is_lookup_or_value_error AssertionError = False"
| "is_lookup_or_value_error RuntimeError = False"
| "is_lookup_or_value_error _ = True"

fun isinstance :: "pyobj \<Rightarrow> element_type \<Rightarrow> bool" where
  "isinstance (PStr s) Str = True"
| "isinstance (PBytes s) Bytes = True"
| "isinstance v t = False"

fun is_int :: "pyobj \<Rightarrow> bool" where
  "is_int (PInt i) = True"
| "is_int v = False"

fun py_len :: "pyobj \<Rightarrow> error + nat" where
  "py_len (PStr s) = Inr (length s)"
| "py_len (PBytes s) = Inr (length s)"
| "py_len v = Inl TypeError"

text \<open>Python's comparison of sequences: the first differing position decides, a proper
  prefix is smaller.\<close>

fun seq_lt :: "('a::linorder) list \<Rightarrow> 'a list \<Rightarrow> bool" where
  "seq_lt [] [] = False"
| "seq_lt [] (y # ys) = True"
| "seq_lt (x # xs) [] = False"
| "seq_lt (x # xs) (y # ys) = (if x = y then seq_lt xs ys else x < y)"

definition seq_le :: "('a::linorder) list \<Rightarrow> 'a list \<Rightarrow> bool" where
  "seq_le xs ys = (seq_lt xs ys \<or> xs = ys)"

fun py_le :: "pyobj \<Rightarrow> pyobj \<Rightarrow> error + bool" where
  "py_le (PStr a) (PStr b) = Inr (seq_le a b)"
| "py_le (PBytes a) (PBytes b) = Inr (seq_le a b)"
| "py_le (PInt a) (PInt b) = Inr (a \<le> b)"
| "py_le v w = Inl TypeError"

definition py_gt :: "pyobj \<Rightarrow> pyobj \<Rightarrow> error + bool" where
  "py_gt v w = (case py_le v w of Inl e \<Rightarrow> Inl e | Inr b \<Rightarrow> Inr (\<not> b))"

text \<open>\<open>chr(codepoint)\<close> for a \<open>str\<close>, \<open>codepoint.to_bytes(1, 'big')\<close> for \<open>bytes\<close>.\<close>

fun mk_char :: "element_type \<Rightarrow> nat \<Rightarrow> pyobj" where
  "mk_char Str cp = PStr [cp]"
| "mk_char Bytes cp = PBytes [cp]"

fun py_ord :: "pyobj \<Rightarrow> error + nat" where
  "py_ord (PStr [cp]) = Inr cp"
| "py_ord (PBytes [cp]) = Inr cp"
| "py_ord v = Inl TypeError"

text \<open>A \<open>str\<close> or \<open>bytes\<close> object from its code points or byte values.\<close>

fun mk_seq :: "element_type \<Rightarrow> nat list \<Rightarrow> pyobj" where
  "mk_seq Str s = PStr s"
| "mk_seq Bytes s = PBytes s"

definition str :: "string \<Rightarrow> pyobj" where
  "str s = PStr (map of_char s)"

text \<open>\<open>_is_char_of_type\<close>: \<open>isinstance(value, expected_type) and len(value) == 1\<close>.\<close>

definition is_char_of_type :: "pyobj \<Rightarrow> element_type \<Rightarrow> bool" where
  "is_char_of_type v expected_type = (isinstance v expected_type \<and> py_len v = Inr 1)"


section \<open>Intervals\<close>

text \<open>
  A \<open>str\<close> or \<open>bytes\<close> object can be an instance of a class derived from the built-in
  one (a member of a \<open>StrEnum\<close>, say). Such an object has the value, the length, the
  order and the hash of the plain object, and it is an instance of the built-in class;
  a plain object is not an instance of the derived class. \<open>pyclass\<close> tells the built-in
  class from the derived ones, which are numbered and taken as unrelated to each other.
  One place of the package asks for the class of an object itself, the membership test
  of an interval: an endpoint and an item of that test are an object with its class.
\<close>

datatype pyclass = Builtin | Subclass nat

type_synonym classed = "pyclass \<times> pyobj"

text \<open>\<open>isinstance(item, cls)\<close> for the class \<open>c\<close> of an object of element type \<open>t\<close>.\<close>

definition isinstance_of :: "classed \<Rightarrow> element_type \<Rightarrow> pyclass \<Rightarrow> bool" where
  "isinstance_of item t c = (isinstance (snd item) t \<and> (c = Builtin \<or> fst item = c))"

text \<open>
  \<open>CharacterInterval\<close> and \<open>ByteInterval\<close>: \<open>iv_type\<close> tells the class, \<open>iv_start\<close> and
  \<open>iv_end\<close> are the code points of the two endpoints, which \<open>_validate\<close> has checked to
  be single symbols of the class's element type. Single symbols compare as their code
  points do. \<open>iv_start_class\<close> is the class of the object \<open>self.start\<close>, which
  \<open>__contains__\<close> reads; the class of \<open>self.end\<close> is read nowhere.
\<close>

record interval =
  iv_type :: element_type
  iv_start :: nat
  iv_end :: nat
  iv_start_class :: pyclass

fun not_a_char_exception :: "element_type \<Rightarrow> error" where
  "not_a_char_exception Str = NotACharacter"
| "not_a_char_exception Bytes = NotAByte"

text \<open>The constructor with \<open>_validate\<close>, called from \<open>__post_init__\<close>.\<close>

definition new_interval :: "element_type \<Rightarrow> classed \<Rightarrow> classed \<Rightarrow> error + interval" where
  "new_interval cls s e =
     (if \<not> is_char_of_type (snd s) cls then Inl (not_a_char_exception cls)
      else if \<not> is_char_of_type (snd e) cls then Inl (not_a_char_exception cls)
      else (case py_gt (snd s) (snd e) of
              Inl err \<Rightarrow> Inl err
            | Inr start_after_end \<Rightarrow>
                if start_after_end then Inl InvalidIntervalDirection
                else (case py_ord (snd s) of
                        Inl err \<Rightarrow> Inl err
                      | Inr a \<Rightarrow> (case py_ord (snd e) of
                                   Inl err \<Rightarrow> Inl err
                                 | Inr b \<Rightarrow> Inr \<lparr>iv_type = cls, iv_start = a, iv_end = b,
                                                 iv_start_class = fst s\<rparr>))))"

definition interval_start :: "interval \<Rightarrow> pyobj" where
  "interval_start iv = mk_char (iv_type iv) (iv_start iv)"

definition interval_end :: "interval \<Rightarrow> pyobj" where
  "interval_end iv = mk_char (iv_type iv) (iv_end iv)"

text \<open>\<open>to_codepoint_range\<close>: \<open>range(ord(self.start), ord(self.end) + 1)\<close>.\<close>

definition to_codepoint_range :: "interval \<Rightarrow> nat list" where
  "to_codepoint_range iv = [iv_start iv ..< Suc (iv_end iv)]"

definition interval_len :: "interval \<Rightarrow> int" where
  "interval_len iv = int (length (to_codepoint_range iv))"

definition interval_iter :: "interval \<Rightarrow> pyobj list" where
  "interval_iter iv = map (mk_char (iv_type iv)) (to_codepoint_range iv)"

text \<open>
  \<open>__contains__\<close>. The first test is \<open>isinstance(item, self.start.__class__)\<close>. The
  \<open>or\<close> evaluates \<open>len(item)\<close> only for an instance of that class, and
  \<open>self.start <= item <= self.end\<close> compares the second pair only when the first
  comparison holds.
\<close>

definition interval_contains :: "interval \<Rightarrow> classed \<Rightarrow> error + bool" where
  "interval_contains iv item =
     (if \<not> isinstance_of item (iv_type iv) (iv_start_class iv) then Inr False
      else (case py_len (snd item) of
              Inl err \<Rightarrow> Inl err
            | Inr n \<Rightarrow>
                if n \<noteq> 1 then Inr False
                else (case py_le (interval_start iv) (snd item) of
                        Inl err \<Rightarrow> Inl err
                      | Inr low \<Rightarrow>
                          if \<not> low then Inr False else py_le (snd item) (interval_end iv))))"

text \<open>
  \<open>__and__\<close> and \<open>intersects\<close>. For an interval of another class \<open>__and__\<close> returns
  \<open>NotImplemented\<close>, which makes \<open>self & other\<close> raise a \<open>TypeError\<close>.
\<close>

definition intersects :: "interval \<Rightarrow> interval \<Rightarrow> error + bool" where
  "intersects self other =
     (if iv_type other \<noteq> iv_type self then Inl TypeError
      else (let earlier_end = min (iv_end self) (iv_end other);
                later_start = max (iv_start self) (iv_start other)
            in Inr (later_start \<le> earlier_end)))"


section \<open>Index maps\<close>

text \<open>
  An \<open>IndexMap\<close>. The two dictionaries are association lists in insertion order
  (\<open>AList.update\<close> replaces the value of a key that is present and appends a new key, as
  a \<open>dict\<close> does). The lookup functions of the caller are functions that return an
  object or raise. \<open>_not_a_char_exception\<close> is determined by the element type.
\<close>

record index_map =
  intervals :: "interval list"
  char_to_index :: "(pyobj \<times> int) list"
  index_to_char :: "(int \<times> pyobj) list"
  lookup_char :: "(pyobj \<Rightarrow> error + pyobj) option"
  lookup_index :: "(int \<Rightarrow> error + pyobj) option"
  element_type :: element_type
  maps_populated :: bool

definition both_given :: "'a option \<Rightarrow> 'b option \<Rightarrow> bool" where
  "both_given lc li = (lc \<noteq> None \<and> li \<noteq> None)"

definition both_omitted :: "'a option \<Rightarrow> 'b option \<Rightarrow> bool" where
  "both_omitted lc li = (lc = None \<and> li = None)"

definition only_one_given :: "'a option \<Rightarrow> 'b option \<Rightarrow> bool" where
  "only_one_given lc li = (\<not> both_given lc li \<and> \<not> both_omitted lc li)"

text \<open>\<open>_intervals_must_have_same_type\<close>: the set of the intervals' classes has at most
  one element.\<close>

definition intervals_must_have_same_type :: "interval list \<Rightarrow> error + unit" where
  "intervals_must_have_same_type ivs =
     (if length (remdups (map iv_type ivs)) > 1 then Inl ConfigurationConflict else Inr ())"

text \<open>\<open>_intervals_must_not_overlap\<close>: \<open>any\<close> stops at the first intersecting interval
  already seen.\<close>

fun any_intersects :: "interval \<Rightarrow> interval list \<Rightarrow> error + bool" where
  "any_intersects current_interval [] = Inr False"
| "any_intersects current_interval (seen_interval # rest) =
     (case intersects current_interval seen_interval of
        Inl err \<Rightarrow> Inl err
      | Inr b \<Rightarrow> if b then Inr True else any_intersects current_interval rest)"

fun must_not_overlap_loop :: "interval list \<Rightarrow> interval list \<Rightarrow> error + unit" where
  "must_not_overlap_loop seen [] = Inr ()"
| "must_not_overlap_loop seen (current_interval # rest) =
     (case any_intersects current_interval seen of
        Inl err \<Rightarrow> Inl err
      | Inr overlapped \<Rightarrow>
          if overlapped then Inl OverlappingIntervals
          else must_not_overlap_loop (seen @ [current_interval]) rest)"

definition intervals_must_not_overlap :: "interval list \<Rightarrow> error + unit" where
  "intervals_must_not_overlap ivs = must_not_overlap_loop [] ivs"

text \<open>\<open>_populate_maps\<close>: the loop over \<open>enumerate(chain.from_iterable(intervals))\<close>.\<close>

fun populate_loop ::
  "(pyobj \<times> int) list \<Rightarrow> (int \<times> pyobj) list \<Rightarrow> int \<Rightarrow> pyobj list
     \<Rightarrow> error + ((pyobj \<times> int) list \<times> (int \<times> pyobj) list)" where
  "populate_loop c2i i2c index [] = Inr (c2i, i2c)"
| "populate_loop c2i i2c index (char # rest) =
     (if char \<in> fst ` set c2i then Inl OverlappingIntervals
      else populate_loop (AList.update char index c2i) (AList.update index char i2c)
             (index + 1) rest)"

definition populate_maps ::
  "interval list \<Rightarrow> error + ((pyobj \<times> int) list \<times> (int \<times> pyobj) list)" where
  "populate_maps ivs = populate_loop [] [] 0 (concat (map interval_iter ivs))"

text \<open>The constructor \<open>IndexMap.__init__\<close>.\<close>

definition new_index_map ::
  "interval list \<Rightarrow> (pyobj \<Rightarrow> error + pyobj) option \<Rightarrow> (int \<Rightarrow> error + pyobj) option
     \<Rightarrow> error + index_map" where
  "new_index_map ivs lc li =
     (if only_one_given lc li then Inl ConfigurationConflict
      else if ivs = [] then Inl NoIntervals
      else (case intervals_must_have_same_type ivs of
        Inl err \<Rightarrow> Inl err
      | Inr u \<Rightarrow>
          if both_given lc li then
            (case intervals_must_not_overlap ivs of
               Inl err \<Rightarrow> Inl err
             | Inr u' \<Rightarrow>
                 Inr \<lparr>intervals = ivs, char_to_index = [], index_to_char = [],
                      lookup_char = lc, lookup_index = li,
                      element_type = iv_type (hd ivs), maps_populated = False\<rparr>)
          else
            (case populate_maps ivs of
               Inl err \<Rightarrow> Inl err
             | Inr (c2i, i2c) \<Rightarrow>
                 Inr \<lparr>intervals = ivs, char_to_index = c2i, index_to_char = i2c,
                      lookup_char = lc, lookup_index = li,
                      element_type = iv_type (hd ivs), maps_populated = True\<rparr>)))"

text \<open>
  \<open>__len__\<close>. Its \<open>functools.cache\<close> is keyed by the map's intervals and stores the value
  this definition computes.
\<close>

definition index_map_len :: "index_map \<Rightarrow> int" where
  "index_map_len m =
     (if maps_populated m then int (length (char_to_index m))
      else sum_list (map interval_len (intervals m)))"

text \<open>
  \<open>_get_index_given_char\<close>, with the updated map: a result of the lookup function is
  stored in \<open>_char_to_index\<close>. \<open>result not in self\<close> is the integer case of
  \<open>__contains__\<close>.
\<close>

definition get_index_given_char :: "index_map \<Rightarrow> pyobj \<Rightarrow> error + (int \<times> index_map)" where
  "get_index_given_char m char =
     (if \<not> is_char_of_type char (element_type m)
      then Inl (not_a_char_exception (element_type m))
      else (case map_of (char_to_index m) char of
              Some i \<Rightarrow> Inr (i, m)
            | None \<Rightarrow>
               (case lookup_char m of
                  None \<Rightarrow> Inl LookupError
                | Some f \<Rightarrow>
                   (case f char of
                      Inl err \<Rightarrow> Inl err
                    | Inr result \<Rightarrow>
                       (case result of
                          PInt r \<Rightarrow>
                            if \<not> (0 \<le> r \<and> r < index_map_len m) then Inl InvalidIndex
                            else Inr (r, m\<lparr>char_to_index := AList.update char r (char_to_index m)\<rparr>)
                        | _ \<Rightarrow> Inl InvalidIndex)))))"

text \<open>\<open>__contains__\<close>.\<close>

definition index_map_contains :: "index_map \<Rightarrow> pyobj \<Rightarrow> error + (bool \<times> index_map)" where
  "index_map_contains m item =
     (if \<not> (isinstance item (element_type m) \<or> is_int item) then Inr (False, m)
      else (case item of
              PInt i \<Rightarrow> Inr (0 \<le> i \<and> i < index_map_len m, m)
            | _ \<Rightarrow>
               (case get_index_given_char m item of
                  Inl err \<Rightarrow> if is_lookup_or_value_error err then Inr (False, m) else Inl err
                | Inr (i, m') \<Rightarrow> Inr (True, m'))))"

text \<open>\<open>_get_char_given_index\<close>, with the updated map.\<close>

definition get_char_given_index :: "index_map \<Rightarrow> int \<Rightarrow> error + (pyobj \<times> index_map)" where
  "get_char_given_index m index =
     (if \<not> (0 \<le> index \<and> index < index_map_len m) then Inl IndexError
      else (case map_of (index_to_char m) index of
              Some c \<Rightarrow> Inr (c, m)
            | None \<Rightarrow>
               (case lookup_index m of
                  None \<Rightarrow> Inl AssertionError
                | Some f \<Rightarrow>
                   (case f index of
                      Inl err \<Rightarrow> Inl err
                    | Inr result \<Rightarrow>
                       if \<not> is_char_of_type result (element_type m) then Inl InvalidChar
                       else Inr (result,
                              m\<lparr>index_to_char := AList.update index result (index_to_char m)\<rparr>)))))"

text \<open>\<open>__getitem__\<close> dispatches on the class of \<open>item\<close>.\<close>

definition index_map_getitem :: "index_map \<Rightarrow> pyobj \<Rightarrow> error + (pyobj \<times> index_map)" where
  "index_map_getitem m item =
     (case item of
        PInt i \<Rightarrow> get_char_given_index m i
      | _ \<Rightarrow>
         if isinstance item (element_type m) then
           (case get_index_given_char m item of
              Inl err \<Rightarrow> Inl err
            | Inr (i, m') \<Rightarrow> Inr (PInt i, m'))
         else Inl TypeError)"


section \<open>The incrementable index collection\<close>

text \<open>
  \<open>_IncrementableIndexCollection\<close>: the indices are stored least significant first
  (\<open>_inverted_indices\<close>), with the base.
\<close>

record collection =
  inverted_indices :: "int list"
  base :: int

definition new_collection :: "int list \<Rightarrow> int \<Rightarrow> error + collection" where
  "new_collection indices b =
     (if rev indices = [] then Inl EmptyListOfIndices
      else if b < 1 then Inl InvalidBase
      else Inr \<lparr>inverted_indices = rev indices, base = b\<rparr>)"

text \<open>\<open>__index__\<close>: the loop over \<open>enumerate(self._inverted_indices)\<close> with its running
  total.\<close>

fun index_loop :: "int \<Rightarrow> nat \<Rightarrow> int list \<Rightarrow> int \<Rightarrow> int" where
  "index_loop b order_of_magnitude [] tot = tot"
| "index_loop b order_of_magnitude (i # rest) tot =
     index_loop b (Suc order_of_magnitude) rest (tot + i * b ^ order_of_magnitude)"

definition collection_index :: "collection \<Rightarrow> int" where
  "collection_index c = index_loop (base c) 0 (inverted_indices c) 0"

definition collection_len :: "collection \<Rightarrow> nat" where
  "collection_len c = length (inverted_indices c)"

text \<open>\<open>_indices\<close>: \<open>tuple(reversed(self._inverted_indices))\<close>.\<close>

definition indices :: "collection \<Rightarrow> int list" where
  "indices c = rev (inverted_indices c)"

definition collection_lt :: "collection \<Rightarrow> collection \<Rightarrow> bool" where
  "collection_lt self other =
     (if collection_len self < collection_len other then True
      else collection_len self = collection_len other \<and> seq_lt (indices self) (indices other))"

definition collection_eq :: "collection \<Rightarrow> collection \<Rightarrow> bool" where
  "collection_eq self other = (base self = base other \<and> indices self = indices other)"

text \<open>\<open>__le__\<close> comes from \<open>functools.total_ordering\<close>: \<open>self < other or self == other\<close>.\<close>

definition collection_le :: "collection \<Rightarrow> collection \<Rightarrow> bool" where
  "collection_le self other = (collection_lt self other \<or> collection_eq self other)"

text \<open>
  \<open>increment\<close>: the \<open>for\<close> loop over the positions, least significant first. The flag
  tells whether the loop left through its \<open>return\<close>; if it did not, a zero is appended.
\<close>

fun increment_loop :: "int \<Rightarrow> int list \<Rightarrow> int list \<times> bool" where
  "increment_loop b [] = ([], False)"
| "increment_loop b (i # rest) =
     (if i + 1 < b then ((i + 1) # rest, True)
      else (case increment_loop b rest of (rest', returned) \<Rightarrow> (0 # rest', returned)))"

definition increment :: "collection \<Rightarrow> collection" where
  "increment c =
     (case increment_loop (base c) (inverted_indices c) of
        (ds, returned) \<Rightarrow> c\<lparr>inverted_indices := (if returned then ds else ds @ [0])\<rparr>)"


section \<open>Ranges\<close>

text \<open>\<open>_split\<close>: the list of the single symbols of a \<open>str\<close> or \<open>bytes\<close> object.\<close>

fun split :: "pyobj \<Rightarrow> error + pyobj list" where
  "split (PStr s) = Inr (map (mk_char Str) s)"
| "split (PBytes s) = Inr (map (mk_char Bytes) s)"
| "split v = Inl TypeError"

text \<open>
  A \<open>_Range\<close>: \<open>range_class\<close> tells \<open>StringRange\<close> (\<open>Str\<close>) from \<open>BytesRange\<close> (\<open>Bytes\<close>).
  The range refers to its map, whose dictionaries the lookups fill: every operation
  returns the map as it has left it.
\<close>

record range =
  range_class :: element_type
  range_start :: pyobj
  range_end :: pyobj
  range_map :: index_map

text \<open>\<open>_is_valid_endpoint\<close>: \<open>all\<close> stops at the first symbol that is not in the map.\<close>

fun all_in_map :: "index_map \<Rightarrow> pyobj list \<Rightarrow> error + (bool \<times> index_map)" where
  "all_in_map m [] = Inr (True, m)"
| "all_in_map m (char # rest) =
     (case index_map_contains m char of
        Inl err \<Rightarrow> Inl err
      | Inr (b, m') \<Rightarrow> if b then all_in_map m' rest else Inr (False, m'))"

definition is_valid_endpoint :: "index_map \<Rightarrow> pyobj \<Rightarrow> error + (bool \<times> index_map)" where
  "is_valid_endpoint m v =
     (case py_len v of
        Inl err \<Rightarrow> Inl err
      | Inr n \<Rightarrow>
          if \<not> n > 0 then Inr (False, m)
          else (case split v of
                  Inl err \<Rightarrow> Inl err
                | Inr chars \<Rightarrow> all_in_map m chars))"

text \<open>
  \<open>_Range.__init__\<close>. Both endpoints are validated before the first check;
  \<open>len(start) > len(end) or len(start) == len(end) and start > end\<close> compares the two
  objects themselves.
\<close>

definition new_range :: "element_type \<Rightarrow> pyobj \<Rightarrow> pyobj \<Rightarrow> index_map \<Rightarrow> error + range" where
  "new_range cls start stop m =
     (case is_valid_endpoint m start of
        Inl err \<Rightarrow> Inl err
      | Inr (start_is_valid, m1) \<Rightarrow>
     (case is_valid_endpoint m1 stop of
        Inl err \<Rightarrow> Inl err
      | Inr (end_is_valid, m2) \<Rightarrow>
          if \<not> start_is_valid \<or> \<not> end_is_valid then Inl InvalidEndpoints
          else (case py_len start of
            Inl err \<Rightarrow> Inl err
          | Inr len_start \<Rightarrow>
         (case py_len stop of
            Inl err \<Rightarrow> Inl err
          | Inr len_end \<Rightarrow>
              if len_start > len_end then Inl InvalidRangeDirection
              else if len_start = len_end then
                (case py_gt start stop of
                   Inl err \<Rightarrow> Inl err
                 | Inr start_after_end \<Rightarrow>
                     if start_after_end then Inl InvalidRangeDirection
                     else Inr \<lparr>range_class = cls, range_start = start, range_end = stop,
                               range_map = m2\<rparr>)
              else Inr \<lparr>range_class = cls, range_start = start, range_end = stop,
                        range_map = m2\<rparr>))))"

text \<open>\<open>_make_collection\<close>: \<open>self._map[char]\<close> for each symbol, in order, then the
  constructor of the collection with \<open>len(self._map)\<close> as base.\<close>

fun indices_of_chars :: "index_map \<Rightarrow> pyobj list \<Rightarrow> error + (int list \<times> index_map)" where
  "indices_of_chars m [] = Inr ([], m)"
| "indices_of_chars m (char # rest) =
     (case index_map_getitem m char of
        Inl err \<Rightarrow> Inl err
      | Inr (v, m') \<Rightarrow>
         (case v of
            PInt i \<Rightarrow>
              (case indices_of_chars m' rest of
                 Inl err \<Rightarrow> Inl err
               | Inr (is, m'') \<Rightarrow> Inr (i # is, m''))
          | _ \<Rightarrow> Inl TypeError))"

definition make_collection :: "index_map \<Rightarrow> pyobj \<Rightarrow> error + (collection \<times> index_map)" where
  "make_collection m v =
     (case split v of
        Inl err \<Rightarrow> Inl err
      | Inr chars \<Rightarrow>
         (case indices_of_chars m chars of
            Inl err \<Rightarrow> Inl err
          | Inr (is, m') \<Rightarrow>
             (case new_collection is (index_map_len m') of
                Inl err \<Rightarrow> Inl err
              | Inr c \<Rightarrow> Inr (c, m'))))"

text \<open>
  \<open>_make_element\<close>: \<open>''.join(self._map[index] for index in indices)\<close> for a
  \<open>StringRange\<close>, \<open>b''.join(...)\<close> for a \<open>BytesRange\<close>. \<open>join\<close> raises a \<open>TypeError\<close> on an
  item of the other type.
\<close>

fun chars_of_indices :: "index_map \<Rightarrow> int list \<Rightarrow> error + (pyobj list \<times> index_map)" where
  "chars_of_indices m [] = Inr ([], m)"
| "chars_of_indices m (index # rest) =
     (case index_map_getitem m (PInt index) of
        Inl err \<Rightarrow> Inl err
      | Inr (c, m') \<Rightarrow>
         (case chars_of_indices m' rest of
            Inl err \<Rightarrow> Inl err
          | Inr (cs, m'') \<Rightarrow> Inr (c # cs, m'')))"

fun contents_of :: "element_type \<Rightarrow> pyobj \<Rightarrow> error + nat list" where
  "contents_of Str (PStr s) = Inr s"
| "contents_of Bytes (PBytes s) = Inr s"
| "contents_of t v = Inl TypeError"

fun join_loop :: "element_type \<Rightarrow> pyobj list \<Rightarrow> error + nat list" where
  "join_loop cls [] = Inr []"
| "join_loop cls (x # xs) =
     (case contents_of cls x of
        Inl err \<Rightarrow> Inl err
      | Inr s \<Rightarrow>
         (case join_loop cls xs of
            Inl err \<Rightarrow> Inl err
          | Inr t \<Rightarrow> Inr (s @ t)))"

definition make_element ::
  "element_type \<Rightarrow> index_map \<Rightarrow> collection \<Rightarrow> error + (pyobj \<times> index_map)" where
  "make_element cls m c =
     (case chars_of_indices m (indices c) of
        Inl err \<Rightarrow> Inl err
      | Inr (cs, m') \<Rightarrow>
         (case join_loop cls cs of
            Inl err \<Rightarrow> Inl err
          | Inr s \<Rightarrow> Inr (mk_seq cls s, m')))"

text \<open>
  \<open>__iter__\<close>, run to its end as a \<open>for\<close> loop over the range does: the
  \<open>while current <= end\<close> loop, which renders the current collection and then
  increments it. The result is the list of the elements in the order they are yielded.
\<close>

function iter_loop ::
  "element_type \<Rightarrow> index_map \<Rightarrow> collection \<Rightarrow> collection \<Rightarrow> error + (pyobj list \<times> index_map)"
  where
  "iter_loop cls m current stop =
     (if collection_le current stop then
        (case make_element cls m current of
           Inl err \<Rightarrow> Inl err
         | Inr (x, m') \<Rightarrow>
            (case iter_loop cls m' (increment current) stop of
               Inl err \<Rightarrow> Inl err
             | Inr (xs, m'') \<Rightarrow> Inr (x # xs, m'')))
      else Inr ([], m))"
  by pat_completeness auto

definition range_iter :: "range \<Rightarrow> error + (pyobj list \<times> index_map)" where
  "range_iter r =
     (case make_collection (range_map r) (range_start r) of
        Inl err \<Rightarrow> Inl err
      | Inr (current, m1) \<Rightarrow>
         (case make_collection m1 (range_end r) of
            Inl err \<Rightarrow> Inl err
          | Inr (stop, m2) \<Rightarrow> iter_loop (range_class r) m2 current stop))"

text \<open>\<open>__len__\<close>: the value the method returns (the built-in \<open>len\<close> refuses a negative
  one with a \<open>ValueError\<close>).\<close>

definition range_len :: "range \<Rightarrow> error + (int \<times> index_map)" where
  "range_len r =
     (case py_len (range_start r) of
        Inl err \<Rightarrow> Inl err
      | Inr len_start \<Rightarrow>
     (case py_len (range_end r) of
        Inl err \<Rightarrow> Inl err
      | Inr len_end \<Rightarrow>
         (let b = index_map_len (range_map r);
              from_len_start_up_to_len_end = sum_list (map (\<lambda>width. b ^ width) [len_start ..< len_end])
          in (case make_collection (range_map r) (range_start r) of
                Inl err \<Rightarrow> Inl err
              | Inr (cs, m1) \<Rightarrow>
                 (case make_collection m1 (range_end r) of
                    Inl err \<Rightarrow> Inl err
                  | Inr (ce, m2) \<Rightarrow>
                     Inr (from_len_start_up_to_len_end + collection_index ce
                            - collection_index cs + 1, m2))))))"

text \<open>\<open>character_range\<close>: two \<open>str\<close> objects give a \<open>StringRange\<close>, two \<open>bytes\<close> objects a
  \<open>BytesRange\<close>, anything else a \<open>TypeError\<close>.\<close>

definition character_range :: "pyobj \<Rightarrow> pyobj \<Rightarrow> index_map \<Rightarrow> error + range" where
  "character_range start stop m =
     (if isinstance start Str \<and> isinstance stop Str then new_range Str start stop m
      else if isinstance start Bytes \<and> isinstance stop Bytes then new_range Bytes start stop m
      else Inl TypeError)"


section \<open>Prebuilt maps\<close>

text \<open>The members of \<open>CharacterMap\<close> that the properties below use, built by the
  constructors as \<open>_instantiate_members\<close> does.\<close>

definition CharacterInterval :: "string \<Rightarrow> string \<Rightarrow> error + interval" where
  "CharacterInterval s e = new_interval Str (Builtin, str s) (Builtin, str e)"

fun all_intervals :: "(error + interval) list \<Rightarrow> error + interval list" where
  "all_intervals [] = Inr []"
| "all_intervals (x # xs) =
     (case x of
        Inl err \<Rightarrow> Inl err
      | Inr iv \<Rightarrow> (case all_intervals xs of Inl err \<Rightarrow> Inl err | Inr ivs \<Rightarrow> Inr (iv # ivs)))"

definition CharacterMap :: "(error + interval) list \<Rightarrow> error + index_map" where
  "CharacterMap xs =
     (case all_intervals xs of Inl err \<Rightarrow> Inl err | Inr ivs \<Rightarrow> new_index_map ivs None None)"

definition ASCII_LOWERCASE :: "(error + interval) list" where
  "ASCII_LOWERCASE = [CharacterInterval ''a'' ''z'']"

definition ASCII_UPPERCASE :: "(error + interval) list" where
  "ASCII_UPPERCASE = [CharacterInterval ''A'' ''Z'']"

definition ASCII_LETTERS :: "(error + interval) list" where
  "ASCII_LETTERS = ASCII_LOWERCASE @ ASCII_UPPERCASE"

definition ASCII_DIGITS :: "(error + interval) list" where
  "ASCII_DIGITS = [CharacterInterval ''0'' ''9'']"


section \<open>Predicates of the properties\<close>

text \<open>Every index of a collection lies in \<open>[0, base)\<close>.\<close>

definition valid_indices :: "collection \<Rightarrow> bool" where
  "valid_indices c = (\<forall>i \<in> set (inverted_indices c). 0 \<le> i \<and> i < base c)"

text \<open>The value of a list of digits, least significant first: what \<open>__index__\<close>
  computes from a zero total.\<close>

definition digits_value :: "int \<Rightarrow> int list \<Rightarrow> int" where
  "digits_value b ds = index_loop b 0 ds 0"

text \<open>
  The measure of the loop of \<open>__iter__\<close>: how far each index is below \<open>base - 1\<close>, a
  more significant position weighing more than all the positions below it together.
\<close>

fun weight :: "int \<Rightarrow> int list \<Rightarrow> nat" where
  "weight b [] = 0"
| "weight b (d # ds) = nat (b - 1 - d) + nat (max b 1) * weight b ds"

text \<open>Two intervals overlap on the line of code points.\<close>

definition overlaps :: "interval \<Rightarrow> interval \<Rightarrow> bool" where
  "overlaps a b = (max (iv_start a) (iv_start b) \<le> min (iv_end a) (iv_end b))"




text \<open>A map after some lookups: only the two dictionaries can have grown, and those
  of a map without lookup functions have not.\<close>

definition cache_grown :: "index_map \<Rightarrow> index_map \<Rightarrow> bool" where
  "cache_grown m m' =
     (intervals m' = intervals m \<and> lookup_char m' = lookup_char m
      \<and> lookup_index m' = lookup_index m \<and> element_type m' = element_type m
      \<and> maps_populated m' = maps_populated m \<and> (maps_populated m \<longrightarrow> m' = m)
      \<and> (\<forall>c i. map_of (char_to_index m) c = Some i \<longrightarrow> map_of (char_to_index m') c = Some i)
      \<and> (\<forall>i c. map_of (index_to_char m) i = Some c \<longrightarrow> map_of (index_to_char m') i = Some c))"




text \<open>
  The closed form of \<open>__len__\<close> on the two collections of a range: the powers of the
  base for the widths from that of \<open>start\<close> up to that of \<open>end\<close>, plus the value of
  \<open>end\<close>, minus the value of \<open>start\<close>, plus 1.
\<close>

definition closed_form :: "collection \<Rightarrow> collection \<Rightarrow> int" where
  "closed_form cs ce =
     sum_list (map (\<lambda>width. base cs ^ width) [collection_len cs ..< collection_len ce])
       + collection_index ce - collection_index cs + 1"


section \<open>Properties of the index collection\<close>

lemma increment_loop_all_max:
  "increment_loop b (replicate n (b - 1)) = (replicate n 0, False)"
  by (induction n) simp_all

text \<open>
  C6. Incrementing a collection of \<open>n\<close> indices that all equal \<open>base - 1\<close> gives \<open>n + 1\<close>
  indices that are all zero, with the base unchanged.
\<close>

theorem increment_all_max:
  "increment \<lparr>inverted_indices = replicate n (b - 1), base = b\<rparr>
     = \<lparr>inverted_indices = replicate (Suc n) 0, base = b\<rparr>"
  by (simp add: increment_def increment_loop_all_max replicate_append_same)

lemma index_loop_shift:
  "index_loop b k ds t = t + b ^ k * index_loop b 0 ds 0"
proof (induction ds arbitrary: k t)
  case Nil
  show ?case by simp
next
  case (Cons d ds)
  have "index_loop b k (d # ds) t = index_loop b (Suc k) ds (t + d * b ^ k)" by simp
  also have "\<dots> = t + d * b ^ k + b ^ Suc k * index_loop b 0 ds 0"
    by (rule Cons.IH)
  finally have l: "index_loop b k (d # ds) t = t + d * b ^ k + b ^ Suc k * index_loop b 0 ds 0" .
  have "index_loop b 0 (d # ds) 0 = index_loop b (Suc 0) ds d" by simp
  also have "\<dots> = d + b ^ Suc 0 * index_loop b 0 ds 0" by (rule Cons.IH)
  finally have r: "index_loop b 0 (d # ds) 0 = d + b * index_loop b 0 ds 0" by simp
  show ?case unfolding l r by (simp add: algebra_simps)
qed

lemma digits_value_Nil [simp]: "digits_value b [] = 0"
  by (simp add: digits_value_def)

lemma digits_value_Cons [simp]: "digits_value b (d # ds) = d + b * digits_value b ds"
  unfolding digits_value_def using index_loop_shift [of b "Suc 0" ds d] by simp

lemma collection_index_value: "collection_index c = digits_value (base c) (inverted_indices c)"
  by (simp add: collection_index_def digits_value_def)

lemma digits_value_bounds:
  "\<forall>i \<in> set ds. 0 \<le> i \<and> i < b \<Longrightarrow> 0 \<le> digits_value b ds \<and> digits_value b ds < b ^ length ds"
proof (induction ds)
  case Nil
  show ?case by simp
next
  case (Cons d ds)
  then have d: "0 \<le> d" "d < b" and ih: "0 \<le> digits_value b ds" "digits_value b ds < b ^ length ds"
    by simp_all
  have b: "0 < b" using d by linarith
  have "digits_value b ds + 1 \<le> b ^ length ds" using ih by simp
  then have "b * (digits_value b ds + 1) \<le> b * b ^ length ds"
    using b by (simp add: mult_left_mono)
  then have "d + b * digits_value b ds < b * b ^ length ds"
    using d by (simp add: algebra_simps)
  moreover have "0 \<le> d + b * digits_value b ds" using d ih b by simp
  ultimately show ?case by simp
qed

lemma seq_lt_snoc:
  "length xs = length ys \<Longrightarrow>
     seq_lt (xs @ [x]) (ys @ [y]) = (seq_lt xs ys \<or> (xs = ys \<and> x < y))"
  by (induction xs ys rule: list_induct2) auto

lemma seq_lt_irrefl [simp]: "\<not> seq_lt xs xs"
  by (induction xs) auto

lemma digit_less_iff:
  fixes d e b v w :: int
  assumes "0 \<le> d" "d < b" "0 \<le> e" "e < b"
  shows "(d + b * v < e + b * w) = (v < w \<or> (v = w \<and> d < e))"
proof -
  have b: "0 \<le> b" using assms by linarith
  consider "v < w" | "v = w" | "w < v" by linarith
  then show ?thesis
  proof cases
    case 1
    then have "b * (v + 1) \<le> b * w" using b by (intro mult_left_mono) simp_all
    then show ?thesis using 1 assms by (simp add: algebra_simps)
  next
    case 2
    then show ?thesis by simp
  next
    case 3
    then have "b * (w + 1) \<le> b * v" using b by (intro mult_left_mono) simp_all
    then show ?thesis using 3 assms by (simp add: algebra_simps)
  qed
qed

lemma digit_eq_iff:
  fixes d e b v w :: int
  assumes "0 \<le> d" "d < b" "0 \<le> e" "e < b"
  shows "(d + b * v = e + b * w) = (v = w \<and> d = e)"
  using digit_less_iff [OF assms, of v w] digit_less_iff [OF assms(3,4,1,2), of w v]
  by auto

lemma digits_value_less_iff:
  assumes "length ds = length es"
    and "\<forall>i \<in> set ds. 0 \<le> i \<and> i < b" and "\<forall>i \<in> set es. 0 \<le> i \<and> i < b"
  shows "(seq_lt (rev ds) (rev es) \<longleftrightarrow> digits_value b ds < digits_value b es)
       \<and> (ds = es \<longleftrightarrow> digits_value b ds = digits_value b es)"
  using assms
proof (induction ds es rule: list_induct2)
  case Nil
  show ?case by simp
next
  case (Cons d ds e es)
  then have ih: "seq_lt (rev ds) (rev es) \<longleftrightarrow> digits_value b ds < digits_value b es"
    "ds = es \<longleftrightarrow> digits_value b ds = digits_value b es"
    and d: "0 \<le> d" "d < b" and e: "0 \<le> e" "e < b"
    by simp_all
  have len: "length (rev ds) = length (rev es)" using Cons.hyps by simp
  show ?case
    using ih digit_less_iff [OF d e, of "digits_value b ds" "digits_value b es"]
      digit_eq_iff [OF d e, of "digits_value b ds" "digits_value b es"]
    by (auto simp: seq_lt_snoc [OF len])
qed


lemma collection_lt_iff_index:
  assumes "collection_len a = collection_len b" "base a = base b"
    and "valid_indices a" "valid_indices b"
  shows "collection_lt a b \<longleftrightarrow> collection_index a < collection_index b"
    and "collection_eq a b \<longleftrightarrow> collection_index a = collection_index b"
    and "collection_le a b \<longleftrightarrow> collection_index a \<le> collection_index b"
proof -
  have len: "length (inverted_indices a) = length (inverted_indices b)"
    using assms(1) by (simp add: collection_len_def)
  have va: "\<forall>i \<in> set (inverted_indices a). 0 \<le> i \<and> i < base a"
    using assms(3) by (simp add: valid_indices_def)
  have vb: "\<forall>i \<in> set (inverted_indices b). 0 \<le> i \<and> i < base a"
    using assms(2,4) by (simp add: valid_indices_def)
  note cmp = digits_value_less_iff [OF len va vb]
  show lt: "collection_lt a b \<longleftrightarrow> collection_index a < collection_index b"
    using cmp assms(1,2) by (simp add: collection_lt_def indices_def collection_index_value)
  show eq: "collection_eq a b \<longleftrightarrow> collection_index a = collection_index b"
    using cmp assms(2) by (simp add: collection_eq_def indices_def collection_index_value)
  show "collection_le a b \<longleftrightarrow> collection_index a \<le> collection_index b"
    unfolding collection_le_def lt eq by auto
qed

text \<open>
  C4. For two collections with the same base whose indices all lie in \<open>[0, base)\<close>: the
  one with fewer indices is strictly less than the one with more, whatever the indices
  are; with equally many indices, \<open><\<close>, \<open><=\<close> and \<open>==\<close> hold exactly when they hold of the
  integer values that \<open>__index__\<close> computes.
\<close>

theorem collection_ordering:
  assumes "base a = base b" and "valid_indices a" and "valid_indices b"
  shows "(collection_len a < collection_len b \<longrightarrow>
            collection_lt a b \<and> collection_le a b \<and> \<not> collection_eq a b \<and> \<not> collection_lt b a)
       \<and> (collection_len a = collection_len b \<longrightarrow>
            (collection_lt a b \<longleftrightarrow> collection_index a < collection_index b)
          \<and> (collection_le a b \<longleftrightarrow> collection_index a \<le> collection_index b)
          \<and> (collection_eq a b \<longleftrightarrow> collection_index a = collection_index b))"
proof (intro conjI impI)
  assume less: "collection_len a < collection_len b"
  show "collection_lt a b" using less by (simp add: collection_lt_def)
  then show "collection_le a b" by (simp add: collection_le_def)
  show "\<not> collection_eq a b"
  proof
    assume "collection_eq a b"
    then have "length (indices a) = length (indices b)" by (simp add: collection_eq_def)
    then show False using less by (simp add: indices_def collection_len_def)
  qed
  show "\<not> collection_lt b a" using less by (simp add: collection_lt_def)
next
  assume "collection_len a = collection_len b"
  then show "collection_lt a b \<longleftrightarrow> collection_index a < collection_index b"
    using collection_lt_iff_index(1) assms by blast
next
  assume "collection_len a = collection_len b"
  then show "collection_le a b \<longleftrightarrow> collection_index a \<le> collection_index b"
    using collection_lt_iff_index(3) assms by blast
next
  assume "collection_len a = collection_len b"
  then show "collection_eq a b \<longleftrightarrow> collection_index a = collection_index b"
    using collection_lt_iff_index(2) assms by blast
qed

lemma increment_loop_returned:
  assumes "increment_loop b ds = (ds', True)" and "\<forall>i \<in> set ds. 0 \<le> i \<and> i < b"
  shows "length ds' = length ds \<and> digits_value b ds' = digits_value b ds + 1
       \<and> (\<forall>i \<in> set ds'. 0 \<le> i \<and> i < b)"
  using assms
proof (induction ds arbitrary: ds')
  case Nil
  then show ?case by simp
next
  case (Cons d ds)
  show ?case
  proof (cases "d + 1 < b")
    case True
    then show ?thesis using Cons.prems by auto
  next
    case False
    then have d: "d = b - 1" using Cons.prems(2) by simp
    obtain r where r: "increment_loop b ds = (r, True)" and ds': "ds' = 0 # r"
      using Cons.prems(1) False by (auto split: prod.splits)
    have "length r = length ds \<and> digits_value b r = digits_value b ds + 1
       \<and> (\<forall>i \<in> set r. 0 \<le> i \<and> i < b)"
      using Cons.IH [OF r] Cons.prems(2) by simp
    then show ?thesis using ds' d Cons.prems(2) by (auto simp: algebra_simps)
  qed
qed

lemma increment_loop_overflow:
  assumes "increment_loop b ds = (ds', False)" and "\<forall>i \<in> set ds. 0 \<le> i \<and> i < b"
  shows "ds' = replicate (length ds) 0 \<and> ds = replicate (length ds) (b - 1)"
  using assms
proof (induction ds arbitrary: ds')
  case Nil
  then show ?case by simp
next
  case (Cons d ds)
  have nlt: "\<not> d + 1 < b" using Cons.prems(1) by (auto split: if_splits)
  then have d: "d = b - 1" using Cons.prems(2) by simp
  obtain r where r: "increment_loop b ds = (r, False)" and ds': "ds' = 0 # r"
    using Cons.prems(1) nlt by (auto split: prod.splits)
  have "r = replicate (length ds) 0 \<and> ds = replicate (length ds) (b - 1)"
    using Cons.IH [OF r] Cons.prems(2) by simp
  then show ?case using ds' d by simp
qed

lemma increment_base [simp]: "base (increment c) = base c"
  by (simp add: increment_def split: prod.splits)

text \<open>
  C5. For a collection whose indices all lie in \<open>[0, base)\<close>, the collection after
  \<open>increment\<close> is strictly greater than the collection before, and it has at least as
  many indices.
\<close>

theorem increment_monotonic:
  assumes "valid_indices c"
  shows "collection_lt c (increment c) \<and> \<not> collection_le (increment c) c
       \<and> collection_len c \<le> collection_len (increment c)"
proof -
  have v: "\<forall>i \<in> set (inverted_indices c). 0 \<le> i \<and> i < base c"
    using assms by (simp add: valid_indices_def)
  obtain ds r where loop: "increment_loop (base c) (inverted_indices c) = (ds, r)"
    by (cases "increment_loop (base c) (inverted_indices c)")
  show ?thesis
  proof (cases r)
    case True
    have loop': "increment_loop (base c) (inverted_indices c) = (ds, True)"
      using loop True by simp
    have inc: "inverted_indices (increment c) = ds"
      using loop' by (simp add: increment_def)
    have facts: "length ds = length (inverted_indices c)"
      "digits_value (base c) ds = digits_value (base c) (inverted_indices c) + 1"
      "\<forall>i \<in> set ds. 0 \<le> i \<and> i < base c"
      using increment_loop_returned [OF loop' v] by simp_all
    have len: "collection_len c = collection_len (increment c)"
      using inc facts(1) by (simp add: collection_len_def)
    have vi: "valid_indices (increment c)"
      using inc facts(3) by (simp add: valid_indices_def)
    have idx: "collection_index (increment c) = collection_index c + 1"
      using inc facts(2) by (simp add: collection_index_value)
    have "collection_lt c (increment c)"
      using collection_lt_iff_index(1) [OF len _ assms vi] idx by simp
    moreover have "\<not> collection_le (increment c) c"
      using collection_lt_iff_index(3) [OF len [symmetric] _ vi assms] idx by simp
    ultimately show ?thesis using len by simp
  next
    case False
    have loop': "increment_loop (base c) (inverted_indices c) = (ds, False)"
      using loop False by simp
    have inc: "inverted_indices (increment c) = ds @ [0]"
      using loop' by (simp add: increment_def)
    have "ds = replicate (length (inverted_indices c)) 0"
      using increment_loop_overflow [OF loop' v] by simp
    then have "length ds = length (inverted_indices c)" by (metis length_replicate)
    then have len: "collection_len (increment c) = Suc (collection_len c)"
      using inc by (simp add: collection_len_def)
    then show ?thesis
      by (auto simp: collection_lt_def collection_le_def collection_eq_def indices_def
          collection_len_def dest: arg_cong [where f = length])
  qed
qed

theorem collection_ordering_witness:
  "collection_lt \<lparr>inverted_indices = [9, 9], base = 10\<rparr> \<lparr>inverted_indices = [0, 0, 0], base = 10\<rparr>
   \<and> \<not> collection_lt \<lparr>inverted_indices = [0, 0, 0], base = 10\<rparr> \<lparr>inverted_indices = [9, 9], base = 10\<rparr>
   \<and> collection_lt \<lparr>inverted_indices = [7, 1], base = 10\<rparr> \<lparr>inverted_indices = [3, 2], base = 10\<rparr>
   \<and> collection_index \<lparr>inverted_indices = [7, 1], base = 10\<rparr> = 17
   \<and> collection_index \<lparr>inverted_indices = [3, 2], base = 10\<rparr> = 23"
proof -
  let ?a = "\<lparr>inverted_indices = [9, 9], base = 10\<rparr>"
  let ?b = "\<lparr>inverted_indices = [0, 0, 0], base = 10\<rparr>"
  let ?c = "\<lparr>inverted_indices = [7, 1], base = 10\<rparr>"
  let ?d = "\<lparr>inverted_indices = [3, 2], base = 10\<rparr>"
  have v: "valid_indices ?a" "valid_indices ?b" "valid_indices ?c" "valid_indices ?d"
    by (simp_all add: valid_indices_def)
  have ic: "collection_index ?c = 17" and id: "collection_index ?d = 23"
    by (simp_all add: collection_index_def)
  have "collection_lt ?a ?b \<and> \<not> collection_lt ?b ?a"
    using collection_ordering [OF _ v(1) v(2)] by (simp add: collection_len_def)
  moreover have "collection_lt ?c ?d"
    using collection_ordering [OF _ v(3) v(4)] ic id by (simp add: collection_len_def)
  ultimately show ?thesis using ic id by simp
qed

theorem increment_monotonic_witness:
  "collection_lt \<lparr>inverted_indices = [1, 0], base = 2\<rparr>
     (increment \<lparr>inverted_indices = [1, 0], base = 2\<rparr>)
   \<and> increment \<lparr>inverted_indices = [1, 0], base = 2\<rparr> = \<lparr>inverted_indices = [0, 1], base = 2\<rparr>
   \<and> collection_lt \<lparr>inverted_indices = [1, 1], base = 2\<rparr>
     (increment \<lparr>inverted_indices = [1, 1], base = 2\<rparr>)
   \<and> increment \<lparr>inverted_indices = [1, 1], base = 2\<rparr> = \<lparr>inverted_indices = [0, 0, 0], base = 2\<rparr>"
proof -
  have v: "valid_indices \<lparr>inverted_indices = [1, 0], base = 2\<rparr>"
    "valid_indices \<lparr>inverted_indices = [1, 1], base = 2\<rparr>"
    by (simp_all add: valid_indices_def)
  show ?thesis
    using increment_monotonic [OF v(1)] increment_monotonic [OF v(2)]
    by (simp add: increment_def)
qed

subsection \<open>The loop of the iterator terminates\<close>

lemma weight_increment_loop:
  "increment_loop b ds = (ds', True) \<Longrightarrow> weight b ds' < weight b ds"
proof (induction ds arbitrary: ds')
  case Nil
  then show ?case by simp
next
  case (Cons d ds)
  show ?case
  proof (cases "d + 1 < b")
    case True
    then show ?thesis using Cons.prems by auto
  next
    case False
    obtain r where r: "increment_loop b ds = (r, True)" and ds': "ds' = 0 # r"
      using Cons.prems False by (auto split: prod.splits)
    have "weight b r < weight b ds" using Cons.IH [OF r] .
    then have "Suc (weight b r) \<le> weight b ds" by simp
    then have "nat (max b 1) * Suc (weight b r) \<le> nat (max b 1) * weight b ds"
      by (rule mult_le_mono2)
    then have a: "nat (max b 1) + nat (max b 1) * weight b r \<le> nat (max b 1) * weight b ds"
      by simp
    have k: "nat (b - 1) < nat (max b 1)" by (simp add: max_def)
    have "nat (b - 1) + nat (max b 1) * weight b r
            < nat (b - 1 - d) + nat (max b 1) * weight b ds"
      using a k by linarith
    then show ?thesis using ds' by simp
  qed
qed

lemma increment_loop_length:
  "increment_loop b ds = (ds', r) \<Longrightarrow> length ds' = length ds"
  by (induction ds arbitrary: ds') (auto split: if_splits prod.splits)

lemma collection_le_len:
  "collection_le a b \<Longrightarrow> collection_len a \<le> collection_len b"
  by (auto simp: collection_le_def collection_lt_def collection_eq_def indices_def
      collection_len_def split: if_splits dest: arg_cong [where f = length])

lemma iter_loop_decreases:
  assumes "collection_le current stop"
  shows "Suc (collection_len stop) - collection_len (increment current)
           < Suc (collection_len stop) - collection_len current
       \<or> (Suc (collection_len stop) - collection_len (increment current)
           = Suc (collection_len stop) - collection_len current
          \<and> weight (base (increment current)) (inverted_indices (increment current))
           < weight (base current) (inverted_indices current))"
proof -
  obtain ds r where loop: "increment_loop (base current) (inverted_indices current) = (ds, r)"
    by (cases "increment_loop (base current) (inverted_indices current)")
  have len: "length ds = length (inverted_indices current)"
    using increment_loop_length [OF loop] .
  have le: "collection_len current \<le> collection_len stop"
    using collection_le_len [OF assms] .
  show ?thesis
  proof (cases r)
    case True
    then have loop': "increment_loop (base current) (inverted_indices current) = (ds, True)"
      using loop by simp
    have "inverted_indices (increment current) = ds" using loop' by (simp add: increment_def)
    then show ?thesis using weight_increment_loop [OF loop'] len
      by (simp add: collection_len_def)
  next
    case False
    then have "inverted_indices (increment current) = ds @ [0]"
      using loop by (simp add: increment_def)
    then have "collection_len (increment current) = Suc (collection_len current)"
      using len by (simp add: collection_len_def)
    then show ?thesis using le by arith
  qed
qed

termination iter_loop
proof (relation "measures [\<lambda>(cls, m, current, stop). Suc (collection_len stop) - collection_len current,
          \<lambda>(cls, m, current, stop). weight (base current) (inverted_indices current)]")
  show "wf (measures [\<lambda>(cls, m, current, stop). Suc (collection_len stop) - collection_len current,
          \<lambda>(cls, m, current, stop). weight (base current) (inverted_indices current)])"
    by simp
next
  fix cls :: element_type and m :: index_map and current stop :: collection
    and x2 :: "pyobj \<times> index_map" and x :: pyobj and m' :: index_map
  assume "collection_le current stop"
  then show "((cls, m', increment current, stop), (cls, m, current, stop))
       \<in> measures [\<lambda>(cls, m, current, stop). Suc (collection_len stop) - collection_len current,
          \<lambda>(cls, m, current, stop). weight (base current) (inverted_indices current)]"
    using iter_loop_decreases [of current stop] by auto
qed

text \<open>The equation of the loop is applied where a proof asks for it.\<close>

declare iter_loop.simps [simp del]


section \<open>Properties of intervals and of the membership tests\<close>

text \<open>
  C9. For every index map and every integer \<open>i\<close>, the membership test \<open>i in m\<close> returns
  \<open>True\<close> exactly when \<open>0 <= i < len(m)\<close>; it raises nothing and leaves the map as it is.
\<close>

theorem index_map_contains_int:
  "index_map_contains m (PInt i) = Inr (0 \<le> i \<and> i < index_map_len m, m)"
  by (simp add: index_map_contains_def)

subsection \<open>Single symbols\<close>

lemma is_char_of_type_iff: "is_char_of_type v t \<longleftrightarrow> (\<exists>cp. v = mk_char t cp)"
proof (cases v)
  case (PStr s)
  then show ?thesis by (cases t; cases s) (auto simp: is_char_of_type_def)
next
  case (PBytes s)
  then show ?thesis by (cases t; cases s) (auto simp: is_char_of_type_def)
next
  case (PInt i)
  then show ?thesis by (cases t) (auto simp: is_char_of_type_def)
next
  case PNone
  then show ?thesis by (cases t) (auto simp: is_char_of_type_def)
qed

lemma is_char_of_type_mk_char [simp]: "is_char_of_type (mk_char t cp) t"
  by (auto simp: is_char_of_type_iff)

lemma isinstance_mk_char [simp]: "isinstance (mk_char t cp) t' \<longleftrightarrow> t = t'"
  by (cases t; cases t') simp_all

lemma py_len_mk_char [simp]: "py_len (mk_char t cp) = Inr 1"
  by (cases t) simp_all

lemma py_le_mk_char [simp]: "py_le (mk_char t a) (mk_char t b) = Inr (a \<le> b)"
  by (cases t) (auto simp: seq_le_def)

lemma interval_contains_mk_char:
  "interval_contains iv (c, mk_char (iv_type iv) cp)
     = Inr ((iv_start_class iv = Builtin \<or> c = iv_start_class iv)
            \<and> iv_start iv \<le> cp \<and> cp \<le> iv_end iv)"
  by (auto simp: interval_contains_def isinstance_of_def interval_start_def interval_end_def)

lemma interval_contains_not_char:
  assumes "\<not> is_char_of_type (snd item) (iv_type iv)"
  shows "interval_contains iv item = Inr False"
proof (cases "isinstance_of item (iv_type iv) (iv_start_class iv)")
  case False
  then show ?thesis by (simp add: interval_contains_def)
next
  case True
  then have inst: "isinstance (snd item) (iv_type iv)" by (simp add: isinstance_of_def)
  then obtain n where n: "py_len (snd item) = Inr n"
    by (cases "snd item"; cases "iv_type iv") simp_all
  then have "n \<noteq> 1" using assms inst by (simp add: is_char_of_type_def)
  then show ?thesis using True n by (simp add: interval_contains_def)
qed

text \<open>What the membership test returns, for every interval and every object with its
  class: it raises nothing.\<close>

lemma interval_contains_value:
  "interval_contains iv item
     = Inr (is_char_of_type (snd item) (iv_type iv)
            \<and> (iv_start_class iv = Builtin \<or> fst item = iv_start_class iv)
            \<and> (\<exists>cp. snd item = mk_char (iv_type iv) cp \<and> iv_start iv \<le> cp \<and> cp \<le> iv_end iv))"
proof (cases "is_char_of_type (snd item) (iv_type iv)")
  case False
  then show ?thesis using interval_contains_not_char [of item iv] by simp
next
  case True
  then obtain cp where cp: "snd item = mk_char (iv_type iv) cp"
    by (auto simp: is_char_of_type_iff)
  have inj: "\<And>a b. mk_char (iv_type iv) a = mk_char (iv_type iv) b \<longleftrightarrow> a = b"
    by (cases "iv_type iv") simp_all
  have item: "item = (fst item, mk_char (iv_type iv) cp)" using cp by (cases item) simp
  show ?thesis
    by (subst item) (auto simp: interval_contains_mk_char cp inj)
qed

text \<open>For an interval whose \<open>start\<close> is a plain \<open>str\<close> or \<open>bytes\<close> object the test is what
  C10 says, for every object.\<close>

lemma interval_contains_builtin_start:
  assumes "iv_start_class iv = Builtin"
  shows "(\<not> is_char_of_type (snd item) (iv_type iv) \<longrightarrow> interval_contains iv item = Inr False)
   \<and> (is_char_of_type (snd item) (iv_type iv) \<longrightarrow>
        (\<exists>cp. py_ord (snd item) = Inr cp
            \<and> interval_contains iv item = Inr (iv_start iv \<le> cp \<and> cp \<le> iv_end iv)))"
proof (intro conjI impI)
  assume "\<not> is_char_of_type (snd item) (iv_type iv)"
  then show "interval_contains iv item = Inr False" by (rule interval_contains_not_char)
next
  assume "is_char_of_type (snd item) (iv_type iv)"
  then obtain cp where cp: "snd item = mk_char (iv_type iv) cp"
    by (auto simp: is_char_of_type_iff)
  have item: "item = (fst item, mk_char (iv_type iv) cp)" using cp by (cases item) simp
  have "py_ord (snd item) = Inr cp" unfolding cp by (cases "iv_type iv") simp_all
  moreover have "interval_contains iv item = Inr (iv_start iv \<le> cp \<and> cp \<le> iv_end iv)"
    by (subst item) (simp add: interval_contains_mk_char assms)
  ultimately show "\<exists>cp. py_ord (snd item) = Inr cp
            \<and> interval_contains iv item = Inr (iv_start iv \<le> cp \<and> cp \<le> iv_end iv)"
    by blast
qed

text \<open>
  C10. The claim: \<open>item in interval\<close> returns \<open>False\<close>, raising nothing, for every object
  that is not a single symbol of the interval's element type, and for a single symbol of
  that type it returns whether the symbol lies between \<open>start\<close> and \<open>end\<close>. The test asks
  for an instance of the class of \<open>self.start\<close>, not of the element type. With
  \<open>class S(str)\<close>, \<open>CharacterInterval(S('a'), S('z'))\<close> is built, and the plain character
  \<open>'m'\<close>, a single symbol of the element type between the endpoints, is reported absent;
  the same character as an instance of \<open>S\<close> is reported present.
\<close>

theorem interval_contains_subclass_start:
  "(case new_interval Str (Subclass 0, str ''a'') (Subclass 0, str ''z'') of
      Inl err \<Rightarrow> False
    | Inr iv \<Rightarrow>
        iv_type iv = Str \<and> iv_start iv = 97 \<and> iv_end iv = 122
      \<and> is_char_of_type (str ''m'') (iv_type iv) \<and> py_ord (str ''m'') = Inr 109
      \<and> interval_contains iv (Builtin, str ''m'') = Inr False
      \<and> interval_contains iv (Subclass 0, str ''m'') = Inr True)"
  by (simp add: new_interval_def interval_contains_def isinstance_of_def is_char_of_type_def
      py_gt_def seq_le_def str_def interval_start_def interval_end_def)


section \<open>Construction of index maps\<close>


lemma populate_loop_overlap:
  "\<not> (distinct chars \<and> set chars \<inter> fst ` set c2i = {}) \<Longrightarrow>
     populate_loop c2i i2c index chars = Inl OverlappingIntervals"
proof (induction chars arbitrary: c2i i2c index)
  case Nil
  then show ?case by simp
next
  case (Cons c cs)
  show ?case
  proof (cases "c \<in> fst ` set c2i")
    case True
    then show ?thesis by simp
  next
    case False
    have "\<not> (distinct cs \<and> set cs \<inter> fst ` set (AList.update c index c2i) = {})"
      using Cons.prems False by (auto simp: dom_update)
    then show ?thesis using False Cons.IH by simp
  qed
qed


lemma same_type_ok:
  assumes "\<forall>iv \<in> set ivs. iv_type iv = t"
  shows "intervals_must_have_same_type ivs = Inr ()"
proof -
  have "set (map iv_type ivs) \<subseteq> {t}" using assms by auto
  then have "card (set (map iv_type ivs)) \<le> card {t}" by (rule card_mono [rotated]) simp
  moreover have "card {t} = 1" by simp
  moreover have "length (remdups (map iv_type ivs)) = card (set (map iv_type ivs))"
    by (rule length_remdups_card_conv)
  ultimately have "\<not> length (remdups (map iv_type ivs)) > 1" by linarith
  then show ?thesis unfolding intervals_must_have_same_type_def by (rule if_not_P)
qed

lemma intersects_same_type:
  "iv_type a = iv_type b \<Longrightarrow> intersects a b = Inr (overlaps a b)"
  by (auto simp: intersects_def overlaps_def Let_def)

lemma any_intersects_same_type:
  "\<forall>s \<in> set seen. iv_type s = iv_type cur \<Longrightarrow>
     any_intersects cur seen = Inr (\<exists>s \<in> set seen. overlaps cur s)"
proof (induction seen)
  case Nil
  show ?case by simp
next
  case (Cons x seen)
  have x: "intersects cur x = Inr (overlaps cur x)"
    using Cons.prems by (intro intersects_same_type) simp
  have ih: "any_intersects cur seen = Inr (\<exists>s \<in> set seen. overlaps cur s)"
    using Cons.prems by (intro Cons.IH) simp
  show ?case
  proof (cases "overlaps cur x")
    case True
    then show ?thesis using x by simp
  next
    case False
    then show ?thesis using x ih by simp
  qed
qed

lemma must_not_overlap_loop_raises:
  assumes "\<forall>iv \<in> set seen \<union> set ivs. iv_type iv = t"
    and "j < length ivs" and "s \<in> set seen \<union> set (take j ivs)" and "overlaps (ivs ! j) s"
  shows "must_not_overlap_loop seen ivs = Inl OverlappingIntervals"
  using assms
proof (induction ivs arbitrary: seen j)
  case Nil
  then show ?case by simp
next
  case (Cons cur rest)
  have any: "any_intersects cur seen = Inr (\<exists>s \<in> set seen. overlaps cur s)"
    using Cons.prems(1) by (intro any_intersects_same_type) simp
  show ?case
  proof (cases "\<exists>s \<in> set seen. overlaps cur s")
    case True
    then show ?thesis using any by simp
  next
    case False
    then obtain j' where j: "j = Suc j'"
      using Cons.prems(2,3,4) by (cases j) auto
    have "must_not_overlap_loop (seen @ [cur]) rest = Inl OverlappingIntervals"
    proof (rule Cons.IH [of "seen @ [cur]" j'])
      show "\<forall>iv \<in> set (seen @ [cur]) \<union> set rest. iv_type iv = t" using Cons.prems(1) by auto
      show "j' < length rest" using Cons.prems(2) j by simp
      show "s \<in> set (seen @ [cur]) \<union> set (take j' rest)" using Cons.prems(3) j by auto
      show "overlaps (rest ! j') s" using Cons.prems(4) j by simp
    qed
    then show ?thesis using any False by simp
  qed
qed

lemma nth_in_take: "i < j \<Longrightarrow> j < length xs \<Longrightarrow> xs ! i \<in> set (take j xs)"
proof -
  assume a: "i < j" "j < length xs"
  then have "take j xs ! i = xs ! i" "i < length (take j xs)" by simp_all
  then show ?thesis by (metis nth_mem)
qed

lemma concat_not_distinct:
  assumes "i < j" "j < length xss" "c \<in> set (xss ! i)" "c \<in> set (xss ! j)"
  shows "\<not> distinct (concat xss)"
proof -
  have split: "xss = take j xss @ (xss ! j) # drop (Suc j) xss"
    using assms(2) by (simp add: id_take_nth_drop)
  have "xss ! i \<in> set (take j xss)"
    using assms(1,2) by (rule nth_in_take)
  then have "c \<in> set (concat (take j xss))" using assms(3) by auto
  then have "\<not> distinct (concat (take j xss) @ (xss ! j) @ concat (drop (Suc j) xss))"
    using assms(4) by auto
  moreover have "concat xss = concat (take j xss) @ (xss ! j) @ concat (drop (Suc j) xss)"
    by (subst split) simp
  ultimately show ?thesis by simp
qed

lemma code_point_in_iter:
  assumes "iv_start iv \<le> cp" and "cp \<le> iv_end iv"
  shows "mk_char (iv_type iv) cp \<in> set (interval_iter iv)"
proof -
  have "iv_start iv \<le> cp \<and> cp < Suc (iv_end iv)" using assms by linarith
  then have "cp \<in> set [iv_start iv ..< Suc (iv_end iv)]" by (simp only: set_upt atLeastLessThan_iff)
  then have "mk_char (iv_type iv) cp \<in> mk_char (iv_type iv) ` set [iv_start iv ..< Suc (iv_end iv)]"
    by (rule imageI)
  then show ?thesis by (simp only: interval_iter_def to_codepoint_range_def set_map)
qed

lemma shared_code_point_rejected:
  assumes "\<forall>iv \<in> set ivs. iv_type iv = t"
    and "i < j" and "j < length ivs"
    and "iv_start (ivs ! i) \<le> cp" and "cp \<le> iv_end (ivs ! i)"
    and "iv_start (ivs ! j) \<le> cp" and "cp \<le> iv_end (ivs ! j)"
  shows "new_index_map ivs None None = Inl OverlappingIntervals
       \<and> new_index_map ivs (Some lc) (Some li) = Inl OverlappingIntervals"
proof -
  have ne: "ivs \<noteq> []" using assms(3) by auto
  have ty: "intervals_must_have_same_type ivs = Inr ()" using assms(1) by (rule same_type_ok)
  have ti: "iv_type (ivs ! i) = t" and tj: "iv_type (ivs ! j) = t"
    using assms(1,2,3) by simp_all
  have "\<not> distinct (concat (map interval_iter ivs))"
  proof (rule concat_not_distinct [OF assms(2)])
    show "j < length (map interval_iter ivs)" using assms(3) by simp
    show "mk_char t cp \<in> set (map interval_iter ivs ! i)"
      using assms(2,3) code_point_in_iter [OF assms(4,5)] ti by simp
    show "mk_char t cp \<in> set (map interval_iter ivs ! j)"
      using assms(3) code_point_in_iter [OF assms(6,7)] tj by simp
  qed
  then have "populate_maps ivs = Inl OverlappingIntervals"
    unfolding populate_maps_def by (intro populate_loop_overlap) simp
  then have eager: "new_index_map ivs None None = Inl OverlappingIntervals"
    using ne ty
    by (simp add: new_index_map_def only_one_given_def both_given_def both_omitted_def)
  have "overlaps (ivs ! j) (ivs ! i)"
    using assms(4,5,6,7) by (simp add: overlaps_def)
  moreover have "ivs ! i \<in> set (take j ivs)"
    using assms(2,3) by (rule nth_in_take)
  ultimately have "must_not_overlap_loop [] ivs = Inl OverlappingIntervals"
    using must_not_overlap_loop_raises [of "[]" ivs t j "ivs ! i"] assms(1,3) by simp
  then have lazy: "new_index_map ivs (Some lc) (Some li) = Inl OverlappingIntervals"
    using ne ty
    by (simp add: new_index_map_def only_one_given_def both_given_def both_omitted_def
        intervals_must_not_overlap_def)
  show ?thesis using eager lazy by simp
qed

text \<open>
  C7. For every list of intervals of one class in which two intervals (at two positions
  of the list) share a symbol, that is, a code point lies between the endpoints of
  both, the constructor of the map raises \<open>OverlappingIntervals\<close>, without lookup
  functions (found as a symbol already present while the dictionaries are filled) and
  with both lookup functions (found by comparing the endpoints of the intervals).
\<close>

theorem overlapping_intervals_rejected:
  assumes "\<forall>iv \<in> set ivs. iv_type iv = t"
    and "i < j" and "j < length ivs"
    and "iv_start (ivs ! i) \<le> cp" and "cp \<le> iv_end (ivs ! i)"
    and "iv_start (ivs ! j) \<le> cp" and "cp \<le> iv_end (ivs ! j)"
  shows "new_index_map ivs None None = Inl OverlappingIntervals
       \<and> new_index_map ivs (Some lc) (Some li) = Inl OverlappingIntervals"
  using assms by (rule shared_code_point_rejected)

theorem overlapping_intervals_rejected_witness:
  "new_index_map [\<lparr>iv_type = Str, iv_start = 0, iv_end = 10, iv_start_class = Builtin\<rparr>,
                  \<lparr>iv_type = Str, iv_start = 5, iv_end = 15, iv_start_class = Builtin\<rparr>] None None
     = Inl OverlappingIntervals
   \<and> new_index_map [\<lparr>iv_type = Str, iv_start = 0, iv_end = 10, iv_start_class = Builtin\<rparr>,
                    \<lparr>iv_type = Str, iv_start = 5, iv_end = 15, iv_start_class = Builtin\<rparr>]
        (Some (\<lambda>c. Inl LookupError)) (Some (\<lambda>i. Inl LookupError))
     = Inl OverlappingIntervals"
proof -
  let ?ivs = "[\<lparr>iv_type = Str, iv_start = 0, iv_end = 10, iv_start_class = Builtin\<rparr>,
               \<lparr>iv_type = Str, iv_start = 5, iv_end = 15, iv_start_class = Builtin\<rparr>]"
  have ty: "\<forall>iv \<in> set ?ivs. iv_type iv = Str" by simp
  show ?thesis
    by (rule overlapping_intervals_rejected [OF ty, of 0 1 7]) simp_all
qed

text \<open>The same for two intervals that the membership test finds to hold one object.\<close>

lemma member_of_both_rejected:
  assumes "\<forall>iv \<in> set ivs. iv_type iv = t"
    and "i < j" and "j < length ivs"
    and "interval_contains (ivs ! i) item = Inr True"
    and "interval_contains (ivs ! j) item = Inr True"
  shows "new_index_map ivs None None = Inl OverlappingIntervals
       \<and> new_index_map ivs (Some lc) (Some li) = Inl OverlappingIntervals"
proof -
  have ti: "iv_type (ivs ! i) = t" and tj: "iv_type (ivs ! j) = t"
    using assms(1,2,3) by simp_all
  obtain cp where cp: "snd item = mk_char t cp"
    "iv_start (ivs ! i) \<le> cp" "cp \<le> iv_end (ivs ! i)"
    using assms(4) ti by (auto simp: interval_contains_value [of "ivs ! i" item])
  obtain cp' where cp': "snd item = mk_char t cp'"
    "iv_start (ivs ! j) \<le> cp'" "cp' \<le> iv_end (ivs ! j)"
    using assms(5) tj by (auto simp: interval_contains_value [of "ivs ! j" item])
  have "cp' = cp" using cp(1) cp'(1) by (cases t) simp_all
  then show ?thesis
    using shared_code_point_rejected [OF assms(1,2,3) cp(2,3)] cp'(2,3) by blast
qed


section \<open>The invariant of index maps\<close>





section \<open>A range over the decimal digits\<close>

lemmas model_defs =
  CharacterMap_def ASCII_DIGITS_def ASCII_LOWERCASE_def ASCII_UPPERCASE_def ASCII_LETTERS_def
  CharacterInterval_def str_def new_interval_def is_char_of_type_def py_gt_def seq_le_def
  new_index_map_def only_one_given_def both_given_def both_omitted_def
  intervals_must_have_same_type_def populate_maps_def interval_iter_def to_codepoint_range_def
  intervals_must_not_overlap_def

lemmas range_defs =
  character_range_def new_range_def is_valid_endpoint_def index_map_contains_def
  get_index_given_char_def get_char_given_index_def index_map_getitem_def index_map_len_def
  is_char_of_type_def py_gt_def seq_le_def str_def
  make_collection_def new_collection_def make_element_def indices_def
  range_iter_def range_len_def iter_loop.simps collection_le_def collection_lt_def collection_eq_def
  collection_len_def collection_index_def increment_def

lemma ascii_digits_value:
  "CharacterMap ASCII_DIGITS =
     Inr \<lparr>intervals = [\<lparr>iv_type = Str, iv_start = 48, iv_end = 57, iv_start_class = Builtin\<rparr>],
        char_to_index =
          [(PStr [48], 0), (PStr [49], 1), (PStr [50], 2), (PStr [51], 3),
           (PStr [52], 4), (PStr [53], 5), (PStr [54], 6), (PStr [55], 7),
           (PStr [56], 8), (PStr [57], 9)],
        index_to_char =
          [(0, PStr [48]), (1, PStr [49]), (2, PStr [50]), (3, PStr [51]),
           (4, PStr [52]), (5, PStr [53]), (6, PStr [54]), (7, PStr [55]),
           (8, PStr [56]), (9, PStr [57])],
        lookup_char = None, lookup_index = None, element_type = Str,
        maps_populated = True\<rparr>"
  by (simp add: model_defs upt_rec)

text \<open>
  C8. \<open>character_range("0", "19", CharacterMap.ASCII_DIGITS)\<close> yields the 30 strings
  \<open>"0"\<close> to \<open>"9"\<close>, \<open>"00"\<close> to \<open>"09"\<close> and \<open>"10"\<close> to \<open>"19"\<close>, in this order, and its
  length is 30. The map is left as it was.
\<close>

theorem ascii_digits_range:
  "(case CharacterMap ASCII_DIGITS of
      Inl err \<Rightarrow> False
    | Inr m \<Rightarrow>
       (case character_range (str ''0'') (str ''19'') m of
          Inl err \<Rightarrow> False
        | Inr r \<Rightarrow>
            range_iter r =
              Inr (map (\<lambda>d. str [d]) ''0123456789''
                   @ map (\<lambda>d. str [CHR ''0'', d]) ''0123456789''
                   @ map (\<lambda>d. str [CHR ''1'', d]) ''0123456789'', m)
          \<and> range_len r = Inr (30, m)))"
  unfolding ascii_digits_value
  by (simp add: range_defs upt_rec)


section \<open>Lookups in index maps\<close>



lemma cache_grown_refl [simp]: "cache_grown m m"
  by (simp add: cache_grown_def)

lemma cache_grown_trans: "cache_grown a b \<Longrightarrow> cache_grown b c \<Longrightarrow> cache_grown a c"
  by (auto simp: cache_grown_def)



lemma index_map_len_index_to_char [simp]:
  "index_map_len (m\<lparr>index_to_char := x\<rparr>) = index_map_len m"
  by (simp add: index_map_len_def)








subsection \<open>The tables of a map without lookup functions\<close>








subsection \<open>The two lookups are inverse to each other\<close>








section \<open>The direction check of a range\<close>

lemma ascii_letters_value:
  "CharacterMap ASCII_LETTERS =
     Inr \<lparr>intervals = [\<lparr>iv_type = Str, iv_start = 97, iv_end = 122, iv_start_class = Builtin\<rparr>,
                        \<lparr>iv_type = Str, iv_start = 65, iv_end = 90, iv_start_class = Builtin\<rparr>],
        char_to_index = zip (map (\<lambda>cp. PStr [cp]) ([97 ..< 123] @ [65 ..< 91])) (map int [0 ..< 52]),
        index_to_char = zip (map int [0 ..< 52]) (map (\<lambda>cp. PStr [cp]) ([97 ..< 123] @ [65 ..< 91])),
        lookup_char = None, lookup_index = None, element_type = Str,
        maps_populated = True\<rparr>"
  by (simp add: model_defs upt_rec)

text \<open>
  C2. The claim: with equally long endpoints whose symbols are all in the map, the
  constructor raises \<open>InvalidRangeDirection\<close> exactly when \<open>start\<close> is after \<open>end\<close> by the
  indices the map gives the symbols. The constructor compares the two objects natively,
  by code points. In \<open>CharacterMap.ASCII_LETTERS\<close> the symbol \<open>a\<close> has index 0 and \<open>A\<close> has
  index 26: the range from \<open>a\<close> to \<open>A\<close> is refused, the range from \<open>A\<close> to \<open>a\<close> is built.
\<close>

theorem range_direction_ascii_letters:
  "(case CharacterMap ASCII_LETTERS of
      Inl err \<Rightarrow> False
    | Inr m \<Rightarrow>
        get_index_given_char m (str ''a'') = Inr (0, m)
      \<and> get_index_given_char m (str ''A'') = Inr (26, m)
      \<and> character_range (str ''a'') (str ''A'') m = Inl InvalidRangeDirection
      \<and> character_range (str ''A'') (str ''a'') m
          = Inr \<lparr>range_class = Str, range_start = str ''A'', range_end = str ''a'',
                  range_map = m\<rparr>)"
  unfolding ascii_letters_value
  by (simp add: range_defs upt_rec)


text \<open>What the constructor checks: with two valid endpoints of one type, the range is
  refused when \<open>start\<close> is longer than \<open>end\<close>, or equally long and after it by code
  points.\<close>

lemma seq_lt_total: "\<not> seq_le xs ys \<longleftrightarrow> seq_lt ys xs"
  by (induction xs ys rule: seq_lt.induct) (auto simp: seq_le_def)

lemma py_len_mk_seq [simp]: "py_len (mk_seq t s) = Inr (length s)"
  by (cases t) simp_all

lemma py_gt_mk_seq [simp]: "py_gt (mk_seq t s) (mk_seq t e) = Inr (seq_lt e s)"
  by (cases t) (simp_all add: py_gt_def seq_lt_total)

lemma split_mk_seq [simp]: "split (mk_seq t s) = Inr (map (mk_char t) s)"
  by (cases t) simp_all

lemma new_range_direction:
  assumes "is_valid_endpoint m (mk_seq t s) = Inr (True, m1)"
    and "is_valid_endpoint m1 (mk_seq t e) = Inr (True, m2)"
  shows "new_range cls (mk_seq t s) (mk_seq t e) m =
           (if length s > length e \<or> (length s = length e \<and> seq_lt e s)
            then Inl InvalidRangeDirection
            else Inr \<lparr>range_class = cls, range_start = mk_seq t s, range_end = mk_seq t e,
                      range_map = m2\<rparr>)"
  using assms by (simp add: new_range_def)


section \<open>The length of a range and its iteration\<close>

subsection \<open>Counting the steps of the loop\<close>

lemma digits_value_replicate_max: "digits_value b (replicate n (b - 1)) = b ^ n - 1"
proof (induction n)
  case 0
  show ?case by simp
next
  case (Suc n)
  have "digits_value b (replicate (Suc n) (b - 1))
          = (b - 1) + b * digits_value b (replicate n (b - 1))"
    by simp
  also have "\<dots> = (b - 1) + b * (b ^ n - 1)" by (simp only: Suc.IH)
  also have "\<dots> = b ^ Suc n - 1" by (simp add: algebra_simps)
  finally show ?case .
qed

lemma digits_value_replicate_zero: "digits_value b (replicate n 0) = 0"
  by (induction n) simp_all

lemma digits_value_snoc_zero: "digits_value b (ds @ [0]) = digits_value b ds"
  by (induction ds) simp_all

lemma collection_le_iff:
  assumes "valid_indices a" and "valid_indices b" and "base a = base b"
  shows "collection_le a b \<longleftrightarrow>
           (collection_len a < collection_len b
            \<or> (collection_len a = collection_len b \<and> collection_index a \<le> collection_index b))"
proof (cases "collection_len a = collection_len b")
  case True
  then show ?thesis using collection_lt_iff_index(3) [OF True assms(3,1,2)] by simp
next
  case False
  have "\<not> collection_eq a b"
  proof
    assume "collection_eq a b"
    then have "length (indices a) = length (indices b)" by (simp add: collection_eq_def)
    then show False using False by (simp add: indices_def collection_len_def)
  qed
  then show ?thesis using False by (auto simp: collection_le_def collection_lt_def)
qed

lemma increment_cases:
  assumes "valid_indices c" and "0 < base c"
  shows "(collection_len (increment c) = collection_len c
            \<and> collection_index (increment c) = collection_index c + 1
            \<and> valid_indices (increment c))
       \<or> (collection_len (increment c) = Suc (collection_len c)
            \<and> collection_index (increment c) = 0
            \<and> collection_index c = base c ^ collection_len c - 1
            \<and> valid_indices (increment c))"
proof -
  have v: "\<forall>i \<in> set (inverted_indices c). 0 \<le> i \<and> i < base c"
    using assms by (simp add: valid_indices_def)
  obtain ds r where loop: "increment_loop (base c) (inverted_indices c) = (ds, r)"
    by (cases "increment_loop (base c) (inverted_indices c)")
  show ?thesis
  proof (cases r)
    case True
    have loop': "increment_loop (base c) (inverted_indices c) = (ds, True)"
      using loop True by simp
    have inc: "inverted_indices (increment c) = ds"
      using loop' by (simp add: increment_def)
    have facts: "length ds = length (inverted_indices c)"
      "digits_value (base c) ds = digits_value (base c) (inverted_indices c) + 1"
      "\<forall>i \<in> set ds. 0 \<le> i \<and> i < base c"
      using increment_loop_returned [OF loop' v] by simp_all
    show ?thesis
      using inc facts
      by (simp add: collection_len_def collection_index_value valid_indices_def)
  next
    case False
    have loop': "increment_loop (base c) (inverted_indices c) = (ds, False)"
      using loop False by simp
    have inc: "inverted_indices (increment c) = ds @ [0]"
      using loop' by (simp add: increment_def)
    have ov: "ds = replicate (length (inverted_indices c)) 0"
      "inverted_indices c = replicate (length (inverted_indices c)) (base c - 1)"
      using increment_loop_overflow [OF loop' v] by simp_all
    have len: "length ds = length (inverted_indices c)" by (subst ov(1)) simp
    have zero: "digits_value (base c) ds = 0"
      by (subst ov(1)) (rule digits_value_replicate_zero)
    have full: "digits_value (base c) (inverted_indices c) = base c ^ length (inverted_indices c) - 1"
      by (subst ov(2)) (rule digits_value_replicate_max)
    have "set ds \<subseteq> {0}" by (subst ov(1)) auto
    then have vds: "\<forall>i \<in> set (ds @ [0]). 0 \<le> i \<and> i < base c"
      using assms(2) by auto
    show ?thesis
      using inc len zero full vds
      by (simp add: collection_len_def collection_index_value valid_indices_def
          digits_value_snoc_zero)
  qed
qed


lemma sum_list_upt_first:
  "n < k \<Longrightarrow> sum_list (map f [n ..< k]) = f n + sum_list (map f [Suc n ..< k])"
  by (simp add: upt_conv_Cons)

lemma count_step:
  assumes va: "valid_indices cur" and vb: "valid_indices stop"
    and b: "base cur = base stop" and pos: "0 < base cur"
    and le: "collection_le cur stop"
  shows "closed_form cur stop =
           1 + (if collection_le (increment cur) stop then closed_form (increment cur) stop else 0)"
proof -
  have le': "collection_len cur < collection_len stop
       \<or> (collection_len cur = collection_len stop \<and> collection_index cur \<le> collection_index stop)"
    using le collection_le_iff [OF va vb b] by simp
  have bounds: "0 \<le> collection_index stop"
    "collection_index stop < base cur ^ collection_len stop"
    using digits_value_bounds [of "inverted_indices stop" "base stop"] vb b
    by (simp_all add: valid_indices_def collection_index_value collection_len_def)
  consider (same) "collection_len (increment cur) = collection_len cur"
      "collection_index (increment cur) = collection_index cur + 1"
      "valid_indices (increment cur)"
    | (grown) "collection_len (increment cur) = Suc (collection_len cur)"
      "collection_index (increment cur) = 0"
      "collection_index cur = base cur ^ collection_len cur - 1"
      "valid_indices (increment cur)"
    using increment_cases [OF va pos] by blast
  then show ?thesis
  proof cases
    case same
    have iff: "collection_le (increment cur) stop \<longleftrightarrow>
           (collection_len cur < collection_len stop
            \<or> (collection_len cur = collection_len stop
               \<and> collection_index cur + 1 \<le> collection_index stop))"
      using collection_le_iff [OF same(3) vb] b same(1,2) by simp
    show ?thesis
    proof (cases "collection_le (increment cur) stop")
      case True
      then show ?thesis using same(1,2) by (simp add: closed_form_def)
    next
      case False
      then have "collection_len cur = collection_len stop"
        "collection_index stop = collection_index cur"
        using iff le' by auto
      then show ?thesis using False by (simp add: closed_form_def)
    qed
  next
    case grown
    have iff: "collection_le (increment cur) stop \<longleftrightarrow>
           (Suc (collection_len cur) < collection_len stop
            \<or> (Suc (collection_len cur) = collection_len stop \<and> 0 \<le> collection_index stop))"
      using collection_le_iff [OF grown(4) vb] b grown(1,2) by simp
    show ?thesis
    proof (cases "collection_len cur < collection_len stop")
      case True
      then have "collection_le (increment cur) stop" using iff bounds(1) by auto
      moreover have "sum_list (map (\<lambda>width. base cur ^ width) [collection_len cur ..< collection_len stop])
          = base cur ^ collection_len cur
            + sum_list (map (\<lambda>width. base cur ^ width) [Suc (collection_len cur) ..< collection_len stop])"
        using True by (rule sum_list_upt_first)
      ultimately show ?thesis using grown(1,2,3) by (simp add: closed_form_def)
    next
      case False
      then have eq: "collection_len cur = collection_len stop"
        and idx: "collection_index cur \<le> collection_index stop"
        using le' by auto
      have "\<not> collection_le (increment cur) stop" using iff eq by simp
      moreover have "collection_index stop = collection_index cur"
        using idx bounds(2) grown(3) eq by simp
      ultimately show ?thesis using eq by (simp add: closed_form_def)
    qed
  qed
qed

lemma iter_loop_count:
  assumes "iter_loop cls m cur stop = Inr (xs, m')"
    and "valid_indices cur" and "valid_indices stop"
    and "base cur = base stop" and "0 < base cur"
  shows "int (length xs) = (if collection_le cur stop then closed_form cur stop else 0)"
  using assms
proof (induction cls m cur stop arbitrary: xs m' rule: iter_loop.induct)
  case (1 cls m current stop)
  have unfolded_loop:
    "(if collection_le current stop then
        (case make_element cls m current of
           Inl err \<Rightarrow> Inl err
         | Inr (x, m') \<Rightarrow>
            (case iter_loop cls m' (increment current) stop of
               Inl err \<Rightarrow> Inl err
             | Inr (xs, m'') \<Rightarrow> Inr (x # xs, m'')))
      else Inr ([], m)) = Inr (xs, m')"
    using "1.prems"(1) by (subst (asm) iter_loop.simps)
  show ?case
  proof (cases "collection_le current stop")
    case False
    then show ?thesis using unfolded_loop by simp
  next
    case True
    obtain x m1 where el: "make_element cls m current = Inr (x, m1)"
      using unfolded_loop True by (auto split: sum.splits)
    obtain ys where rest: "iter_loop cls m1 (increment current) stop = Inr (ys, m')"
      and xs: "xs = x # ys"
      using unfolded_loop True el by (auto split: sum.splits)
    have vinc: "valid_indices (increment current)"
      using increment_cases [OF "1.prems"(2,5)] by blast
    have "int (length ys) =
            (if collection_le (increment current) stop
             then closed_form (increment current) stop else 0)"
      using "1.IH" [OF True el refl rest vinc "1.prems"(3)] "1.prems"(4,5) by simp
    then show ?thesis
      using True xs count_step [OF "1.prems"(2,3,4,5) True] by simp
  qed
qed

end
